theory Spec2Isabelle
  imports Complex_Main "HOL-Library.Word" "HOL-Library.Multiset"
begin

section \<open>The vector-quantization compressor of App.tsx\<close>

text \<open>
  The development embeds \<^verbatim>\<open>compressWithVectorQuantization\<close> of
  \<^verbatim>\<open>src/datacompression11/App.tsx\<close>: the resize computation, the extraction of the
  visible pixels, the K-means loop that fits the codebook, the reconstruction pass with its
  colour cache, and the final choice between the quantized and the original image.

  JavaScript numbers that hold integers are \<open>int\<close> or \<open>nat\<close>; the two places where the
  source divides (\<^verbatim>\<open>Math.round(val / counts[i])\<close>, the reduction percentage) and the
  values of \<^verbatim>\<open>Math.random()\<close> are exact rationals, so the rounding of IEEE doubles is
  not part of the model. The bytes of a \<^verbatim>\<open>Uint8ClampedArray\<close> are \<open>8 word\<close>.
\<close>

subsection \<open>Parameters\<close>

definition K :: nat where
  "K = 64"

definition MAX_ITERATIONS :: nat where
  "MAX_ITERATIONS = 10"

definition PIXEL_SAMPLE_SIZE :: nat where
  "PIXEL_SAMPLE_SIZE = 40000"

definition MAX_DIMENSION :: int where
  "MAX_DIMENSION = 256"

subsection \<open>Data\<close>

type_synonym byte = "8 word"

text \<open>A \<^verbatim>\<open>number[]\<close> of three entries: a training pixel or a codebook entry.\<close>

type_synonym color = "int \<times> int \<times> int"

text \<open>
  \<^verbatim>\<open>ImageData.data\<close> is a flat byte array read in strides of four; it is kept here as the
  list of its quadruples, in the same order.
\<close>

record rgba =
  red :: byte
  green :: byte
  blue :: byte
  alpha :: byte

record image_data =
  width :: int
  height :: int
  data :: "rgba list"

datatype mime = ImageJpeg | ImagePng

text \<open>
  A data URL \<^verbatim>\<open>data:<mime>;base64,<payload>\<close>, kept as its media type and the
  bytes its payload decodes to, so that \<^verbatim>\<open>atob(url.split(',')[1]).length\<close> is the length
  of the byte list.
\<close>

datatype data_url = DataUrl mime "byte list"

fun payload_length :: "data_url \<Rightarrow> nat" where
  "payload_length (DataUrl m bs) = length bs"

record input_file =
  fsize :: nat
  ftype :: mime

record compression_stats =
  originalSize :: nat
  compressedSize :: nat
  reductionPercentage :: rat

record vq_result =
  finalDataUrl :: data_url
  stats :: compression_stats
  mimeType :: mime
  compressionApplied :: bool

text \<open>The rejections of the promise; only the fourth is raised after the pixels are read.\<close>

datatype error =
  CouldNotReadFileData
  | FailedToGetCanvasContext
  | FailedToLoadImage
  | EmptyOrFullyTransparent
  | FailedToReadFile

text \<open>
  The random source. \<open>shuffle\<close> is what \<^verbatim>\<open>[...pixels].sort(() => 0.5 - Math.random())\<close>
  returns, and \<open>random k\<close> is the value of the \<open>k\<close>-th call of \<^verbatim>\<open>Math.random()\<close> made
  by the re-initialisation of empty clusters.
\<close>

record random_source =
  shuffle :: "color list \<Rightarrow> color list"
  random :: "nat \<Rightarrow> rat"

definition random_source_ok :: "random_source \<Rightarrow> bool" where
  "random_source_ok rs \<longleftrightarrow>
     (\<forall>xs. mset (shuffle rs xs) = mset xs) \<and> (\<forall>k. 0 \<le> random rs k \<and> random rs k < 1)"

subsection \<open>Numbers\<close>

text \<open>\<^verbatim>\<open>Math.round\<close>: the nearest integer, a tie going up.\<close>

definition math_round :: "rat \<Rightarrow> int" where
  "math_round x = \<lfloor>x + 1 / 2\<rfloor>"

text \<open>Storing a number into a \<^verbatim>\<open>Uint8ClampedArray\<close>.\<close>

definition to_uint8_clamped :: "int \<Rightarrow> byte" where
  "to_uint8_clamped x = word_of_int (max 0 (min 255 x))"

text \<open>The decimal digits of a number, as a template literal prints it.\<close>

definition digit_char :: "nat \<Rightarrow> char" where
  "digit_char d = char_of (48 + d)"

fun decimal :: "nat \<Rightarrow> string" where
  "decimal n = (if n < 10 then [digit_char n] else decimal (n div 10) @ [digit_char (n mod 10)])"

declare decimal.simps [simp del]

subsection \<open>Step 1: resizing\<close>

definition resize :: "int \<Rightarrow> int \<Rightarrow> int \<times> int" where
  "resize w h =
     (if w > h then
        (if w > MAX_DIMENSION
         then (MAX_DIMENSION, math_round (of_int (h * MAX_DIMENSION) / of_int w))
         else (w, h))
      else
        (if h > MAX_DIMENSION
         then (math_round (of_int (w * MAX_DIMENSION) / of_int h), MAX_DIMENSION)
         else (w, h)))"

subsection \<open>Step 2: the visible pixels\<close>

definition rgb_of :: "rgba \<Rightarrow> color" where
  "rgb_of px = (uint (red px), uint (green px), uint (blue px))"

definition visible :: "rgba \<Rightarrow> bool" where
  "visible px \<longleftrightarrow> uint (alpha px) > 128"

definition visible_pixels :: "rgba list \<Rightarrow> color list" where
  "visible_pixels imgData = map rgb_of (filter visible imgData)"

subsection \<open>Step 3: the codebook\<close>

definition training_pixels :: "random_source \<Rightarrow> color list \<Rightarrow> color list" where
  "training_pixels rs pixels =
     (if length pixels > PIXEL_SAMPLE_SIZE
      then take PIXEL_SAMPLE_SIZE (shuffle rs pixels)
      else pixels)"

definition initial_codebook :: "color list \<Rightarrow> color list" where
  "initial_codebook trainingPixels = take K trainingPixels"

fun euclideanDistanceSq :: "color \<Rightarrow> color \<Rightarrow> int" where
  "euclideanDistanceSq (r1, g1, b1) (r2, g2, b2) = (r1 - r2)\<^sup>2 + (g1 - g2)\<^sup>2 + (b1 - b2)\<^sup>2"

text \<open>
  The search for the nearest entry, shared by the assignment step and the reconstruction
  (which writes the same distance inline). \<open>minDistance\<close> starts at \<^verbatim>\<open>Infinity\<close>,
  here \<open>None\<close>; \<open>j\<close> is the index of the head of the entries still to visit.
\<close>

fun nearest_loop :: "color \<Rightarrow> color list \<Rightarrow> nat \<Rightarrow> int option \<Rightarrow> nat \<Rightarrow> nat" where
  "nearest_loop p [] j minDistance bestIndex = bestIndex"
| "nearest_loop p (c # cs) j minDistance bestIndex =
     (let distance = euclideanDistanceSq p c in
      if (case minDistance of None \<Rightarrow> True | Some m \<Rightarrow> distance < m)
      then nearest_loop p cs (Suc j) (Some distance) j
      else nearest_loop p cs (Suc j) minDistance bestIndex)"

definition nearest_index :: "color \<Rightarrow> color list \<Rightarrow> nat" where
  "nearest_index p cb = nearest_loop p cb 0 None 0"

definition assign_all :: "color list \<Rightarrow> color list \<Rightarrow> nat list" where
  "assign_all trainingPixels cb = map (\<lambda>p. nearest_index p cb) trainingPixels"

fun vadd :: "color \<Rightarrow> color \<Rightarrow> color" where
  "vadd (r1, g1, b1) (r2, g2, b2) = (r1 + r2, g1 + g2, b1 + b2)"

text \<open>
  The sums and counts per cluster. Every assignment is an index of the codebook, which has
  at most \<open>K\<close> entries, so the two arrays of length \<open>K\<close> are never read out of range.
\<close>

fun accumulate :: "color list \<Rightarrow> nat list \<Rightarrow> color list \<times> nat list \<Rightarrow> color list \<times> nat list" where
  "accumulate (pixel # ps) (assignment # as) (newCodebook, counts) =
     accumulate ps as
       (newCodebook[assignment := vadd (newCodebook ! assignment) pixel],
        counts[assignment := Suc (counts ! assignment)])"
| "accumulate ps as acc = acc"

record update_state =
  st_codebook :: "color list"
  st_hasChanged :: bool
  st_draws :: nat

fun centroid :: "color \<Rightarrow> nat \<Rightarrow> color" where
  "centroid (r, g, b) n =
     (math_round (of_int r / of_nat n), math_round (of_int g / of_nat n),
      math_round (of_int b / of_nat n))"

text \<open>
  One round of the update loop, for the index \<open>i\<close>. With a value of \<^verbatim>\<open>Math.random()\<close> in
  \<open>[0, 1)\<close> the index drawn for an empty cluster is below the number of training pixels.
\<close>

definition update_entry ::
  "random_source \<Rightarrow> color list \<Rightarrow> color list \<Rightarrow> nat list \<Rightarrow> nat \<Rightarrow> update_state \<Rightarrow> update_state" where
  "update_entry rs trainingPixels newCodebook counts i s =
     (if counts ! i > 0 then
        (let newCentroid = centroid (newCodebook ! i) (counts ! i) in
         s\<lparr>st_codebook := (st_codebook s)[i := newCentroid],
           st_hasChanged :=
             (st_hasChanged s \<or>
              of_int (euclideanDistanceSq newCentroid (st_codebook s ! i)) > (1 / 10000 :: rat))\<rparr>)
      else
        s\<lparr>st_codebook :=
            (st_codebook s)
              [i := trainingPixels !
                      nat \<lfloor>random rs (st_draws s) * of_nat (length trainingPixels)\<rfloor>],
          st_draws := Suc (st_draws s)\<rparr>)"

text \<open>
  One iteration of the K-means loop. The update loop runs over the indices of the codebook,
  whose length an assignment to an existing index does not change.
\<close>

definition kmeans_iteration ::
  "random_source \<Rightarrow> color list \<Rightarrow> color list \<Rightarrow> nat \<Rightarrow> update_state" where
  "kmeans_iteration rs trainingPixels cb d =
     (let assignments = assign_all trainingPixels cb;
          totals = accumulate trainingPixels assignments
                   (replicate K (0, 0, 0), replicate K 0)
      in fold (update_entry rs trainingPixels (fst totals) (snd totals)) [0..<length cb]
           \<lparr>st_codebook = cb, st_hasChanged = False, st_draws = d\<rparr>)"

text \<open>
  The loop itself. \<open>iterations\<close> is the number of iterations that were run: \<open>iter + 1\<close> when
  the loop leaves by \<^verbatim>\<open>break\<close> in iteration \<open>iter\<close>, and the final \<open>iter\<close> otherwise.
\<close>

record kmeans_result =
  final_codebook :: "color list"
  iterations :: nat
  final_draws :: nat

function kmeans_loop ::
  "random_source \<Rightarrow> color list \<Rightarrow> nat \<Rightarrow> color list \<Rightarrow> nat \<Rightarrow> kmeans_result" where
  "kmeans_loop rs trainingPixels iter cb d =
     (if iter < MAX_ITERATIONS then
        (let s = kmeans_iteration rs trainingPixels cb d in
         if \<not> st_hasChanged s
         then \<lparr>final_codebook = st_codebook s, iterations = Suc iter, final_draws = st_draws s\<rparr>
         else kmeans_loop rs trainingPixels (Suc iter) (st_codebook s) (st_draws s))
      else \<lparr>final_codebook = cb, iterations = iter, final_draws = d\<rparr>)"
  by pat_completeness auto

termination
  by (relation "measure (\<lambda>(rs, trainingPixels, iter, cb, d). MAX_ITERATIONS - iter)") auto

declare kmeans_loop.simps [simp del]

definition generate_codebook :: "random_source \<Rightarrow> color list \<Rightarrow> color list" where
  "generate_codebook rs pixels =
     (let trainingPixels = training_pixels rs pixels
      in final_codebook (kmeans_loop rs trainingPixels 0 (initial_codebook trainingPixels) 0))"

subsection \<open>Step 4: reconstruction\<close>

definition color_key :: "byte \<Rightarrow> byte \<Rightarrow> byte \<Rightarrow> string" where
  "color_key r g b = decimal (unat r) @ '','' @ decimal (unat g) @ '','' @ decimal (unat b)"

definition output_pixel :: "color \<Rightarrow> rgba \<Rightarrow> rgba" where
  "output_pixel finalColor px =
     (case finalColor of (r, g, b) \<Rightarrow>
        \<lparr>red = to_uint8_clamped r, green = to_uint8_clamped g, blue = to_uint8_clamped b,
         alpha = alpha px\<rparr>)"

text \<open>
  The pass over the pixels, with the cache \<open>pixelMap\<close> from colour keys to codebook entries.
  The codebook is not empty when the pass runs, so \<open>cb ! bestIndex\<close> is an entry.
\<close>

fun reconstruct_loop :: "color list \<Rightarrow> rgba list \<Rightarrow> (string \<rightharpoonup> color) \<Rightarrow> rgba list" where
  "reconstruct_loop cb [] pixelMap = []"
| "reconstruct_loop cb (px # rest) pixelMap =
     (let originalColorKey = color_key (red px) (green px) (blue px) in
      case pixelMap originalColorKey of
        Some finalColor \<Rightarrow> output_pixel finalColor px # reconstruct_loop cb rest pixelMap
      | None \<Rightarrow>
          (let finalColor = cb ! nearest_index (rgb_of px) cb
           in output_pixel finalColor px #
              reconstruct_loop cb rest (pixelMap(originalColorKey \<mapsto> finalColor))))"

definition reconstruct :: "color list \<Rightarrow> image_data \<Rightarrow> image_data" where
  "reconstruct cb imageData =
     \<lparr>width = width imageData, height = height imageData,
      data = reconstruct_loop cb (data imageData) Map.empty\<rparr>"

subsection \<open>Step 5: the choice\<close>

definition select_result :: "input_file \<Rightarrow> data_url \<Rightarrow> data_url \<Rightarrow> vq_result" where
  "select_result f originalDataUrl vqCompressedDataUrl =
     (let originalSize = fsize f;
          vqCompressedSize = payload_length vqCompressedDataUrl
      in if vqCompressedSize < originalSize then
           \<lparr>finalDataUrl = vqCompressedDataUrl,
            stats = \<lparr>originalSize = originalSize, compressedSize = vqCompressedSize,
                     reductionPercentage =
                       ((of_nat originalSize - of_nat vqCompressedSize) / of_nat originalSize) * 100\<rparr>,
            mimeType = ImagePng, compressionApplied = True\<rparr>
         else
           \<lparr>finalDataUrl = originalDataUrl,
            stats = \<lparr>originalSize = originalSize, compressedSize = originalSize,
                     reductionPercentage = 0\<rparr>,
            mimeType = ftype f, compressionApplied = False\<rparr>)"

subsection \<open>The whole function, from the pixels of the resized image on\<close>

text \<open>
  \<open>png\<close> is the encoder behind \<^verbatim>\<open>canvas.toDataURL('image/png')\<close>: the bytes of the PNG
  file for the image put on the canvas.
\<close>

definition quantized_image :: "random_source \<Rightarrow> image_data \<Rightarrow> image_data" where
  "quantized_image rs imageData =
     reconstruct (generate_codebook rs (visible_pixels (data imageData))) imageData"

definition compressWithVectorQuantization ::
  "random_source \<Rightarrow> (image_data \<Rightarrow> byte list) \<Rightarrow> input_file \<Rightarrow> data_url \<Rightarrow> image_data
     \<Rightarrow> error + vq_result" where
  "compressWithVectorQuantization rs png f originalDataUrl imageData =
     (let pixels = visible_pixels (data imageData) in
      if length pixels = 0 then Inl EmptyOrFullyTransparent
      else
        (let newImageData = quantized_image rs imageData;
             vqCompressedDataUrl = DataUrl ImagePng (png newImageData)
         in Inr (select_result f originalDataUrl vqCompressedDataUrl)))"

subsection \<open>Notions used to state the properties\<close>

text \<open>\<open>j\<close> is the lowest index of an entry of \<open>cb\<close> at minimal distance from \<open>p\<close>.\<close>

definition is_first_minimum :: "color \<Rightarrow> color list \<Rightarrow> nat \<Rightarrow> bool" where
  "is_first_minimum p cb j \<longleftrightarrow>
     j < length cb
     \<and> (\<forall>k < length cb. euclideanDistanceSq p (cb ! j) \<le> euclideanDistanceSq p (cb ! k))
     \<and> (\<forall>k < j. euclideanDistanceSq p (cb ! j) < euclideanDistanceSq p (cb ! k))"

text \<open>The training pixels assigned to the cluster \<open>k\<close>, in their order.\<close>

definition cluster_members :: "color list \<Rightarrow> nat list \<Rightarrow> nat \<Rightarrow> color list" where
  "cluster_members ps as k = map fst (filter (\<lambda>pa. snd pa = k) (zip ps as))"

text \<open>The component-wise sum of a list of colours.\<close>

definition color_sum :: "color list \<Rightarrow> color" where
  "color_sum cs =
     (sum_list (map fst cs), sum_list (map (fst \<circ> snd) cs), sum_list (map (snd \<circ> snd) cs))"

text \<open>The test of the update loop: a new entry lies further than \<open>1e-4\<close> from the old one.\<close>

definition moved :: "color \<Rightarrow> color \<Rightarrow> bool" where
  "moved new old \<longleftrightarrow> of_int (euclideanDistanceSq new old) > (1 / 10000 :: rat)"

text \<open>The training pixel picked by the draw number \<open>d\<close>.\<close>

definition reseed_draw :: "random_source \<Rightarrow> color list \<Rightarrow> nat \<Rightarrow> color" where
  "reseed_draw rs trainingPixels d =
     trainingPixels ! nat \<lfloor>random rs d * of_nat (length trainingPixels)\<rfloor>"

text \<open>
  The reconstruction without a cache, as the specification describes it: a fresh search for
  the nearest entry for every pixel.
\<close>

definition naive_reconstruct :: "color list \<Rightarrow> image_data \<Rightarrow> image_data" where
  "naive_reconstruct cb imageData =
     \<lparr>width = width imageData, height = height imageData,
      data = map (\<lambda>px. output_pixel (cb ! nearest_index (rgb_of px) cb) px) (data imageData)\<rparr>"

text \<open>Every colour the cache holds is the entry a search for its key's colour finds.\<close>

definition cache_ok :: "color list \<Rightarrow> (string \<rightharpoonup> color) \<Rightarrow> bool" where
  "cache_ok cb pixelMap \<longleftrightarrow>
     (\<forall>px c. pixelMap (color_key (red px) (green px) (blue px)) = Some c
        \<longrightarrow> c = cb ! nearest_index (rgb_of px) cb)"

text \<open>A colour whose three channels are bytes.\<close>

definition byte_color :: "color \<Rightarrow> bool" where
  "byte_color c \<longleftrightarrow>
     (case c of (r, g, b) \<Rightarrow> 0 \<le> r \<and> r \<le> 255 \<and> 0 \<le> g \<and> g \<le> 255 \<and> 0 \<le> b \<and> b \<le> 255)"

subsection \<open>Sample inputs\<close>

definition sample_pixel :: "int \<Rightarrow> int \<Rightarrow> int \<Rightarrow> int \<Rightarrow> rgba" where
  "sample_pixel r g b a =
     \<lparr>red = word_of_int r, green = word_of_int g, blue = word_of_int b, alpha = word_of_int a\<rparr>"

text \<open>Two random sources: every draw is \<open>0\<close>, and every draw is \<open>3/4\<close>.\<close>

definition rs_low :: random_source where
  "rs_low = \<lparr>shuffle = (\<lambda>xs. xs), random = (\<lambda>k. 0)\<rparr>"

definition rs_high :: random_source where
  "rs_high = \<lparr>shuffle = (\<lambda>xs. xs), random = (\<lambda>k. 3 / 4)\<rparr>"

text \<open>Four opaque pixels, two of them black, and a fifth of alpha 100.\<close>

definition sample_image :: image_data where
  "sample_image =
     \<lparr>width = 5, height = 1,
      data = [sample_pixel 0 0 0 255, sample_pixel 0 0 0 255, sample_pixel 100 0 0 255,
              sample_pixel 102 0 0 255, sample_pixel 101 0 0 100]\<rparr>"

definition sample_file :: input_file where
  "sample_file = \<lparr>fsize = 10, ftype = ImageJpeg\<rparr>"

section \<open>Properties\<close>

subsection \<open>Reconstruction keeps the alpha channel\<close>

lemma alpha_output_pixel: "alpha (output_pixel c px) = alpha px"
  by (cases c) (simp add: output_pixel_def)

lemma alpha_reconstruct_loop: "map alpha (reconstruct_loop cb pxs m) = map alpha pxs"
  by (induction pxs arbitrary: m) (simp_all add: Let_def alpha_output_pixel split: option.split)

text \<open>
  C3. The image written by the reconstruction has the dimensions of the one read, and the
  alpha bytes of its pixels are, position by position, the alpha bytes of the pixels read,
  whatever the codebook.
\<close>

theorem reconstruct_preserves_alpha:
  "map alpha (data (reconstruct cb imageData)) = map alpha (data imageData)
   \<and> length (data (reconstruct cb imageData)) = length (data imageData)
   \<and> width (reconstruct cb imageData) = width imageData
   \<and> height (reconstruct cb imageData) = height imageData"
proof -
  have a: "map alpha (data (reconstruct cb imageData)) = map alpha (data imageData)"
    by (simp add: reconstruct_def alpha_reconstruct_loop)
  from a have "length (map alpha (data (reconstruct cb imageData))) = length (map alpha (data imageData))"
    by (rule arg_cong)
  then have l: "length (data (reconstruct cb imageData)) = length (data imageData)"
    by simp
  show ?thesis using a l by (simp add: reconstruct_def)
qed

subsection \<open>Rounding\<close>

lemma math_round_mono: "x \<le> y \<Longrightarrow> math_round x \<le> math_round y"
  unfolding math_round_def by (rule floor_mono) simp

lemma math_round_of_int [simp]: "math_round (of_int n) = n"
  unfolding math_round_def by linarith

lemma math_round_range:
  assumes "of_int lo \<le> x" "x \<le> of_int hi"
  shows "lo \<le> math_round x \<and> math_round x \<le> hi"
  using math_round_mono [OF assms(1)] math_round_mono [OF assms(2)] by simp

lemma math_round_nearest:
  "x - 1 / 2 < of_int (math_round x) \<and> of_int (math_round x) \<le> x + 1 / 2"
  unfolding math_round_def by linarith

lemma math_round_of_int_div:
  "0 < c \<Longrightarrow> math_round (of_int s / of_int c) = (2 * s + c) div (2 * c)"
proof -
  assume c: "0 < c"
  have "(of_int s / of_int c + 1 / 2 :: rat) = of_int (2 * s + c) / of_int (2 * c)"
    using c by (simp add: field_simps)
  then show ?thesis
    unfolding math_round_def by (simp only: floor_divide_of_int_eq)
qed

subsection \<open>Resizing\<close>

lemma scaled_side_bounds:
  assumes "0 < s" "s \<le> l" "256 < l"
  shows "0 \<le> math_round (of_int (s * 256) / of_int l)
    \<and> math_round (of_int (s * 256) / of_int l) \<le> 256"
proof (rule math_round_range)
  show "rat_of_int 0 \<le> of_int (s * 256) / of_int l"
    using assms by simp
  have "rat_of_int (s * 256) \<le> of_int (256 * l)"
    using assms by simp
  then show "rat_of_int (s * 256) / of_int l \<le> of_int 256"
    using assms by (simp add: divide_le_eq)
qed

text \<open>
  What does hold of the resize of an image with a side above 256: the longer side becomes
  256, no side is negative and the area is at most 65536.
\<close>

lemma resize_when_large:
  assumes "0 < w" "0 < h" "MAX_DIMENSION < max w h"
  shows "max (fst (resize w h)) (snd (resize w h)) = MAX_DIMENSION
    \<and> 0 \<le> fst (resize w h) \<and> 0 \<le> snd (resize w h)
    \<and> fst (resize w h) * snd (resize w h) \<le> 65536"
proof (cases "w > h")
  case True
  then have big: "256 < w" using assms by (simp add: MAX_DIMENSION_def)
  have r: "resize w h = (256, math_round (of_int (h * 256) / of_int w))"
    using True big by (simp add: resize_def MAX_DIMENSION_def)
  have b: "0 \<le> math_round (of_int (h * 256) / of_int w)
      \<and> math_round (of_int (h * 256) / of_int w) \<le> 256"
    using scaled_side_bounds [of h w] assms True big by simp
  show ?thesis unfolding r using b by (simp add: MAX_DIMENSION_def)
next
  case False
  then have big: "256 < h" using assms by (simp add: MAX_DIMENSION_def)
  have r: "resize w h = (math_round (of_int (w * 256) / of_int h), 256)"
    using False big by (simp add: resize_def MAX_DIMENSION_def)
  have b: "0 \<le> math_round (of_int (w * 256) / of_int h)
      \<and> math_round (of_int (w * 256) / of_int h) \<le> 256"
    using scaled_side_bounds [of w h] assms False big by simp
  show ?thesis unfolding r using b by (simp add: MAX_DIMENSION_def)
qed

lemma resize_when_small:
  "max w h \<le> MAX_DIMENSION \<Longrightarrow> resize w h = (w, h)"
  by (simp add: resize_def)

text \<open>
  C7. An image 513 pixels wide and 1 pixel high is resized to a width of 256 and a height
  of 0: the height of the pixel buffer is not positive.
\<close>

theorem resize_513_by_1: "resize 513 1 = (256, 0)"
  using math_round_of_int_div [of 513 256]
  by (simp add: resize_def MAX_DIMENSION_def)

subsection \<open>The choice between the two encodings\<close>


lemma sample_image_visible: "visible_pixels (data sample_image) \<noteq> []"
  by (simp add: visible_pixels_def visible_def sample_image_def sample_pixel_def)


subsection \<open>The empty image\<close>

text \<open>
  C8. On the pixels of the resized image the function fails, with the error of an empty or
  fully transparent image, exactly when no pixel has an alpha byte above 128; it fails with
  no other error, and when it fails it returns no result.
\<close>

theorem empty_image_error:
  "(compressWithVectorQuantization rs png f orig imageData = Inl EmptyOrFullyTransparent
      \<longleftrightarrow> (\<forall>p \<in> set (data imageData). \<not> uint (alpha p) > 128))
   \<and> (\<forall>e. compressWithVectorQuantization rs png f orig imageData = Inl e
          \<longrightarrow> e = EmptyOrFullyTransparent
              \<and> (\<forall>res. compressWithVectorQuantization rs png f orig imageData \<noteq> Inr res))"
  by (auto simp add: compressWithVectorQuantization_def Let_def visible_pixels_def visible_def
      filter_empty_conv)

theorem empty_image_error_witness:
  "compressWithVectorQuantization rs_low (\<lambda>im. []) sample_file (DataUrl ImageJpeg [])
     \<lparr>width = 2, height = 1, data = [sample_pixel 7 8 9 0, sample_pixel 1 2 3 128]\<rparr>
   = Inl EmptyOrFullyTransparent"
proof -
  let ?im = "\<lparr>width = 2, height = 1, data = [sample_pixel 7 8 9 0, sample_pixel 1 2 3 128]\<rparr>"
  have "\<forall>p \<in> set (data ?im). \<not> uint (alpha p) > 128"
    by (simp add: sample_pixel_def)
  with empty_image_error [of rs_low "\<lambda>im. []" sample_file "DataUrl ImageJpeg []" ?im]
  show ?thesis by blast
qed

subsection \<open>The nearest entry\<close>

lemma first_min_single: "is_first_minimum p [c] 0"
  by (simp add: is_first_minimum_def)

lemma first_min_snoc_new:
  assumes "is_first_minimum p pre b" "euclideanDistanceSq p c < euclideanDistanceSq p (pre ! b)"
  shows "is_first_minimum p (pre @ [c]) (length pre)"
  using assms unfolding is_first_minimum_def
  by (auto simp add: nth_append less_Suc_eq)

lemma first_min_snoc_keep:
  assumes "is_first_minimum p pre b" "\<not> euclideanDistanceSq p c < euclideanDistanceSq p (pre ! b)"
  shows "is_first_minimum p (pre @ [c]) b"
  using assms unfolding is_first_minimum_def
  by (auto simp add: nth_append less_Suc_eq)

lemma nearest_loop_first_min:
  assumes "j = length pre"
    and "case m of None \<Rightarrow> pre = []
         | Some d \<Rightarrow> is_first_minimum p pre b \<and> d = euclideanDistanceSq p (pre ! b)"
    and "pre @ cs \<noteq> []"
  shows "is_first_minimum p (pre @ cs) (nearest_loop p cs j m b)"
  using assms
proof (induction cs arbitrary: pre j m b)
  case Nil
  then show ?case by (cases m) simp_all
next
  case (Cons c cs)
  let ?d = "euclideanDistanceSq p c"
  show ?case
  proof (cases m)
    case None
    with Cons.prems have pre: "pre = []" by simp
    have "is_first_minimum p ([c] @ cs) (nearest_loop p cs (Suc 0) (Some ?d) 0)"
      by (rule Cons.IH) (simp_all add: first_min_single)
    then show ?thesis using None pre Cons.prems(1) by (simp add: Let_def)
  next
    case (Some d)
    with Cons.prems have fm: "is_first_minimum p pre b" and d: "d = euclideanDistanceSq p (pre ! b)"
      by simp_all
    show ?thesis
    proof (cases "?d < d")
      case True
      have "is_first_minimum p ((pre @ [c]) @ cs) (nearest_loop p cs (Suc j) (Some ?d) j)"
      proof (rule Cons.IH)
        show "Suc j = length (pre @ [c])" using Cons.prems(1) by simp
        show "case Some ?d of None \<Rightarrow> pre @ [c] = []
              | Some d \<Rightarrow> is_first_minimum p (pre @ [c]) j \<and> d = euclideanDistanceSq p ((pre @ [c]) ! j)"
          using first_min_snoc_new [OF fm] True d Cons.prems(1) by simp
        show "(pre @ [c]) @ cs \<noteq> []" by simp
      qed
      then show ?thesis using Some True by (simp add: Let_def)
    next
      case False
      have b: "b < length pre" using fm by (simp add: is_first_minimum_def)
      have "is_first_minimum p ((pre @ [c]) @ cs) (nearest_loop p cs (Suc j) (Some d) b)"
      proof (rule Cons.IH)
        show "Suc j = length (pre @ [c])" using Cons.prems(1) by simp
        show "case Some d of None \<Rightarrow> pre @ [c] = []
              | Some d \<Rightarrow> is_first_minimum p (pre @ [c]) b \<and> d = euclideanDistanceSq p ((pre @ [c]) ! b)"
          using first_min_snoc_keep [OF fm] False d b by (simp add: nth_append)
        show "(pre @ [c]) @ cs \<noteq> []" by simp
      qed
      then show ?thesis using Some False by (simp add: Let_def)
    qed
  qed
qed

lemma nearest_index_first_min:
  "cb \<noteq> [] \<Longrightarrow> is_first_minimum p cb (nearest_index p cb)"
  using nearest_loop_first_min [where pre = "[]" and m = None and cs = cb and j = 0 and b = 0 and p = p]
  by (simp add: nearest_index_def)

lemma nearest_index_less: "cb \<noteq> [] \<Longrightarrow> nearest_index p cb < length cb"
  using nearest_index_first_min [of cb p] by (simp add: is_first_minimum_def)

lemma first_min_unique:
  assumes "is_first_minimum p cb j" "is_first_minimum p cb k"
  shows "j = k"
proof (rule ccontr)
  assume "j \<noteq> k"
  then consider "j < k" | "k < j" by linarith
  then show False
  proof cases
    case 1
    with assms show False unfolding is_first_minimum_def
      by (metis not_less)
  next
    case 2
    with assms show False unfolding is_first_minimum_def
      by (metis not_less)
  qed
qed

subsection \<open>Sums and counts of the clusters\<close>

lemma color_sum_Nil [simp]: "color_sum [] = (0, 0, 0)"
  by (simp add: color_sum_def)

lemma color_sum_Cons: "color_sum (p # ps) = vadd p (color_sum ps)"
  by (cases p) (simp add: color_sum_def)

lemma vadd_assoc: "vadd (vadd a b) c = vadd a (vadd b c)"
  by (cases a, cases b, cases c) simp

lemma vadd_zero [simp]: "vadd (0, 0, 0) c = c"
  by (cases c) simp

lemma cluster_members_Nil [simp]: "cluster_members [] as k = []" "cluster_members ps [] k = []"
  by (simp_all add: cluster_members_def)

lemma cluster_members_Cons:
  "cluster_members (p # ps) (a # as) k =
     (if a = k then p # cluster_members ps as k else cluster_members ps as k)"
  by (simp add: cluster_members_def)

lemma set_cluster_members: "set (cluster_members ps as k) \<subseteq> set ps"
  by (auto simp add: cluster_members_def dest: set_zip_leftD)

lemma members_nonempty_iff:
  "length as = length ps \<Longrightarrow> cluster_members ps as k \<noteq> [] \<longleftrightarrow> k \<in> set as"
proof (induction ps as rule: list_induct2')
  case (4 p ps a as)
  then show ?case by (auto simp add: cluster_members_Cons)
qed simp_all

lemma accumulate_length:
  "length (fst (accumulate ps as (nc, cs))) = length nc
   \<and> length (snd (accumulate ps as (nc, cs))) = length cs"
proof (induction ps arbitrary: as nc cs)
  case Nil
  then show ?case by simp
next
  case (Cons p ps)
  then show ?case by (cases as) simp_all
qed

lemma accumulate_nth:
  assumes "k < length nc" "k < length cs"
  shows "fst (accumulate ps as (nc, cs)) ! k = vadd (nc ! k) (color_sum (cluster_members ps as k))
    \<and> snd (accumulate ps as (nc, cs)) ! k = cs ! k + length (cluster_members ps as k)"
  using assms
proof (induction ps arbitrary: as nc cs)
  case Nil
  then show ?case by (cases "nc ! k") simp
next
  case (Cons p ps)
  show ?case
  proof (cases as)
    case Nil
    then show ?thesis by (cases "nc ! k") simp
  next
    case (Cons a as')
    let ?nc = "nc[a := vadd (nc ! a) p]" and ?cs = "cs[a := Suc (cs ! a)]"
    have ih: "fst (accumulate ps as' (?nc, ?cs)) ! k = vadd (?nc ! k) (color_sum (cluster_members ps as' k))
      \<and> snd (accumulate ps as' (?nc, ?cs)) ! k = ?cs ! k + length (cluster_members ps as' k)"
      using Cons.prems by (intro Cons.IH) simp_all
    show ?thesis
    proof (cases "a = k")
      case True
      then show ?thesis
        using ih Cons Cons.prems
        by (simp add: cluster_members_Cons color_sum_Cons vadd_assoc)
    next
      case False
      then show ?thesis
        using ih Cons Cons.prems by (simp add: cluster_members_Cons)
    qed
  qed
qed

lemma totals_nth:
  assumes "k < K"
  shows "fst (accumulate ps as (replicate K (0, 0, 0), replicate K 0)) ! k = color_sum (cluster_members ps as k)"
    and "snd (accumulate ps as (replicate K (0, 0, 0), replicate K 0)) ! k = length (cluster_members ps as k)"
  using accumulate_nth [of k "replicate K (0, 0, 0)" "replicate K 0" ps as] assms by simp_all

subsection \<open>The update loop\<close>

lemma update_entry_length:
  "length (st_codebook (update_entry rs tp nc cnt i s)) = length (st_codebook s)"
  by (simp add: update_entry_def Let_def)

lemma update_entry_other:
  "j \<noteq> i \<Longrightarrow> st_codebook (update_entry rs tp nc cnt i s) ! j = st_codebook s ! j"
  by (simp add: update_entry_def Let_def)

lemma update_entry_here:
  "i < length (st_codebook s) \<Longrightarrow>
   st_codebook (update_entry rs tp nc cnt i s) ! i =
     (if cnt ! i > 0 then centroid (nc ! i) (cnt ! i) else reseed_draw rs tp (st_draws s))"
  by (simp add: update_entry_def Let_def reseed_draw_def)

lemma update_entry_changed:
  "st_hasChanged (update_entry rs tp nc cnt i s) \<longleftrightarrow>
     st_hasChanged s \<or> (cnt ! i > 0 \<and> moved (centroid (nc ! i) (cnt ! i)) (st_codebook s ! i))"
  by (simp add: update_entry_def Let_def moved_def)

lemma fold_update_length:
  "length (st_codebook (fold (update_entry rs tp nc cnt) is s)) = length (st_codebook s)"
  by (induction "is" arbitrary: s) (simp_all add: update_entry_length)

lemma fold_update_other:
  "i \<notin> set is \<Longrightarrow> st_codebook (fold (update_entry rs tp nc cnt) is s) ! i = st_codebook s ! i"
  by (induction "is" arbitrary: s) (simp_all add: update_entry_other)

lemma fold_update_here:
  assumes "distinct is" "i \<in> set is" "i < length (st_codebook s)"
  shows "st_codebook (fold (update_entry rs tp nc cnt) is s) ! i =
     (if cnt ! i > 0 then centroid (nc ! i) (cnt ! i)
      else reseed_draw rs tp
             (st_draws (fold (update_entry rs tp nc cnt) (takeWhile (\<lambda>j. j \<noteq> i) is) s)))"
  using assms
proof (induction "is" arbitrary: s)
  case Nil
  then show ?case by simp
next
  case (Cons j js)
  show ?case
  proof (cases "j = i")
    case True
    then have "i \<notin> set js" using Cons.prems by simp
    then show ?thesis
      using True Cons.prems by (simp add: fold_update_other update_entry_here)
  next
    case False
    then show ?thesis
      using Cons.IH [of "update_entry rs tp nc cnt j s"] Cons.prems
      by (simp add: update_entry_length)
  qed
qed

lemma fold_update_changed:
  assumes "distinct is"
  shows "st_hasChanged (fold (update_entry rs tp nc cnt) is s) \<longleftrightarrow>
     st_hasChanged s
     \<or> (\<exists>i \<in> set is. cnt ! i > 0 \<and> moved (centroid (nc ! i) (cnt ! i)) (st_codebook s ! i))"
  using assms
proof (induction "is" arbitrary: s)
  case Nil
  then show ?case by simp
next
  case (Cons j js)
  have other: "\<And>i. i \<in> set js \<Longrightarrow>
      st_codebook (update_entry rs tp nc cnt j s) ! i = st_codebook s ! i"
    using Cons.prems by (intro update_entry_other) auto
  have "st_hasChanged (fold (update_entry rs tp nc cnt) (j # js) s) \<longleftrightarrow>
      st_hasChanged (update_entry rs tp nc cnt j s)
      \<or> (\<exists>i \<in> set js. cnt ! i > 0
            \<and> moved (centroid (nc ! i) (cnt ! i)) (st_codebook (update_entry rs tp nc cnt j s) ! i))"
    using Cons.IH [of "update_entry rs tp nc cnt j s"] Cons.prems by simp
  also have "\<dots> \<longleftrightarrow> st_hasChanged (update_entry rs tp nc cnt j s)
      \<or> (\<exists>i \<in> set js. cnt ! i > 0 \<and> moved (centroid (nc ! i) (cnt ! i)) (st_codebook s ! i))"
    using other by auto
  also have "\<dots> \<longleftrightarrow> st_hasChanged s
     \<or> (\<exists>i \<in> set (j # js). cnt ! i > 0 \<and> moved (centroid (nc ! i) (cnt ! i)) (st_codebook s ! i))"
    by (auto simp add: update_entry_changed)
  finally show ?case .
qed

subsection \<open>One iteration, and the loop\<close>

lemma iteration_length:
  "length (st_codebook (kmeans_iteration rs tp cb d)) = length cb"
  by (simp add: kmeans_iteration_def Let_def fold_update_length)

lemma iteration_entry:
  fixes tp cb :: "color list" and i :: nat
  assumes "i < length cb" "length cb \<le> K"
  defines "M \<equiv> cluster_members tp (assign_all tp cb) i"
  shows "\<exists>d'. st_codebook (kmeans_iteration rs tp cb d) ! i =
     (if M \<noteq> [] then centroid (color_sum M) (length M) else reseed_draw rs tp d')"
proof -
  let ?tot = "accumulate tp (assign_all tp cb) (replicate K (0, 0, 0), replicate K 0)"
  let ?s = "\<lparr>st_codebook = cb, st_hasChanged = False, st_draws = d\<rparr>"
  have k: "i < K" using assms by simp
  have nc: "fst ?tot ! i = color_sum M" and cnt: "snd ?tot ! i = length M"
    using totals_nth [OF k] by (simp_all add: M_def)
  have "st_codebook (fold (update_entry rs tp (fst ?tot) (snd ?tot)) [0..<length cb] ?s) ! i =
     (if snd ?tot ! i > 0 then centroid (fst ?tot ! i) (snd ?tot ! i)
      else reseed_draw rs tp
             (st_draws (fold (update_entry rs tp (fst ?tot) (snd ?tot))
                (takeWhile (\<lambda>j. j \<noteq> i) [0..<length cb]) ?s)))"
    using assms(1) by (intro fold_update_here) simp_all
  then show ?thesis
    unfolding kmeans_iteration_def Let_def nc cnt by auto
qed

lemma iteration_changed:
  assumes "length cb \<le> K"
  shows "st_hasChanged (kmeans_iteration rs tp cb d) \<longleftrightarrow>
     (\<exists>i < length cb. cluster_members tp (assign_all tp cb) i \<noteq> []
        \<and> moved (centroid (color_sum (cluster_members tp (assign_all tp cb) i))
                    (length (cluster_members tp (assign_all tp cb) i))) (cb ! i))"
proof -
  let ?tot = "accumulate tp (assign_all tp cb) (replicate K (0, 0, 0), replicate K 0)"
  let ?s = "\<lparr>st_codebook = cb, st_hasChanged = False, st_draws = d\<rparr>"
  have tot: "\<And>i. i < length cb \<Longrightarrow>
      fst ?tot ! i = color_sum (cluster_members tp (assign_all tp cb) i)
      \<and> snd ?tot ! i = length (cluster_members tp (assign_all tp cb) i)"
    using totals_nth assms by simp
  have "st_hasChanged (kmeans_iteration rs tp cb d) \<longleftrightarrow>
     (\<exists>i \<in> set [0..<length cb]. snd ?tot ! i > 0
         \<and> moved (centroid (fst ?tot ! i) (snd ?tot ! i)) (cb ! i))"
    unfolding kmeans_iteration_def Let_def
    by (subst fold_update_changed) simp_all
  also have "\<dots> \<longleftrightarrow> (\<exists>i < length cb. cluster_members tp (assign_all tp cb) i \<noteq> []
        \<and> moved (centroid (color_sum (cluster_members tp (assign_all tp cb) i))
                    (length (cluster_members tp (assign_all tp cb) i))) (cb ! i))"
    using tot by auto
  finally show ?thesis .
qed

lemma kmeans_loop_invariant:
  assumes "P cb" and "\<And>c d'. P c \<Longrightarrow> P (st_codebook (kmeans_iteration rs tp c d'))"
  shows "P (final_codebook (kmeans_loop rs tp iter cb d))"
  using assms
proof (induction rs tp iter cb d rule: kmeans_loop.induct)
  case (1 rs tp iter cb d)
  note step = "1.prems"(2)
  show ?case
  proof (cases "iter < MAX_ITERATIONS")
    case False
    then show ?thesis using "1.prems"(1) by (simp add: kmeans_loop.simps)
  next
    case True
    let ?s = "kmeans_iteration rs tp cb d"
    have P: "P (st_codebook ?s)" using "1.prems"(1) by (rule step)
    show ?thesis
    proof (cases "st_hasChanged ?s")
      case False
      then show ?thesis using True P by (subst kmeans_loop.simps) (simp add: Let_def)
    next
      case changed: True
      have "P (final_codebook (kmeans_loop rs tp (Suc iter) (st_codebook ?s) (st_draws ?s)))"
        using True changed P step by (intro "1.IH") simp_all
      then show ?thesis using True changed by (subst kmeans_loop.simps) (simp add: Let_def)
    qed
  qed
qed

subsection \<open>The size of the codebook\<close>

lemma random_ok_constant:
  "0 \<le> c \<Longrightarrow> c < 1 \<Longrightarrow> random_source_ok \<lparr>shuffle = (\<lambda>xs. xs), random = (\<lambda>k. c)\<rparr>"
  by (simp add: random_source_ok_def)

lemma reseed_index_less:
  assumes "random_source_ok rs" "tp \<noteq> []"
  shows "nat \<lfloor>random rs d * of_nat (length tp)\<rfloor> < length tp"
proof -
  have r: "0 \<le> random rs d" "random rs d < 1"
    using assms(1) by (simp_all add: random_source_ok_def)
  have n: "(0::rat) < of_nat (length tp)" using assms(2) by simp
  have "random rs d * of_nat (length tp) < 1 * of_nat (length tp)"
    using r(2) n by (rule mult_strict_right_mono)
  then have "\<lfloor>random rs d * of_nat (length tp)\<rfloor> < int (length tp)"
    by (simp add: floor_less_iff)
  moreover have "0 \<le> \<lfloor>random rs d * of_nat (length tp)\<rfloor>"
    using r(1) by simp
  ultimately show ?thesis by linarith
qed

lemma reseed_draw_in_training:
  "random_source_ok rs \<Longrightarrow> tp \<noteq> [] \<Longrightarrow> reseed_draw rs tp d \<in> set tp"
  unfolding reseed_draw_def by (rule nth_mem) (rule reseed_index_less)

lemma generate_codebook_length:
  "length (generate_codebook rs pixels) = min K (length (training_pixels rs pixels))"
  unfolding generate_codebook_def Let_def
  by (rule kmeans_loop_invariant) (simp_all add: initial_codebook_def iteration_length min.commute)

text \<open>
  C2 (as amended). The codebook has \<open>min 64 n\<close> entries, \<open>n\<close> the number of training
  pixels: when it is seeded, after every iteration, and when the loop ends; so it has exactly
  64 entries whenever there are at least 64 training pixels. An iteration never changes the
  length of the codebook, and (with draws in \<open>[0, 1)\<close>) the entry of a cluster that received
  no training pixel becomes one of the training pixels.
\<close>

theorem codebook_size:
  "length (initial_codebook tp) = min 64 (length tp)
   \<and> (\<forall>cb d. length (st_codebook (kmeans_iteration rs tp cb d)) = length cb)
   \<and> (\<forall>iter d. length (final_codebook (kmeans_loop rs tp iter (initial_codebook tp) d))
         = min 64 (length tp))
   \<and> length (generate_codebook rs pixels) = min 64 (length (training_pixels rs pixels))
   \<and> (\<forall>cb d i. random_source_ok rs \<and> tp \<noteq> [] \<and> i < length cb \<and> length cb \<le> 64
         \<and> cluster_members tp (assign_all tp cb) i = []
         \<longrightarrow> st_codebook (kmeans_iteration rs tp cb d) ! i \<in> set tp)"
proof -
  have a: "length (initial_codebook tp) = min 64 (length tp)"
    by (simp add: initial_codebook_def K_def min.commute)
  have b: "\<forall>cb d. length (st_codebook (kmeans_iteration rs tp cb d)) = length cb"
    by (simp add: iteration_length)
  have c: "\<forall>iter d. length (final_codebook (kmeans_loop rs tp iter (initial_codebook tp) d))
         = min 64 (length tp)"
  proof (intro allI)
    fix iter d
    show "length (final_codebook (kmeans_loop rs tp iter (initial_codebook tp) d)) = min 64 (length tp)"
      by (rule kmeans_loop_invariant) (simp_all add: a iteration_length)
  qed
  have d: "length (generate_codebook rs pixels) = min 64 (length (training_pixels rs pixels))"
    using generate_codebook_length [of rs pixels] by (simp add: K_def)
  have e: "\<forall>cb d i. random_source_ok rs \<and> tp \<noteq> [] \<and> i < length cb \<and> length cb \<le> 64
         \<and> cluster_members tp (assign_all tp cb) i = []
         \<longrightarrow> st_codebook (kmeans_iteration rs tp cb d) ! i \<in> set tp"
  proof (intro allI impI)
    fix cb d i
    assume h: "random_source_ok rs \<and> tp \<noteq> [] \<and> i < length cb \<and> length cb \<le> 64
         \<and> cluster_members tp (assign_all tp cb) i = []"
    then have "length cb \<le> K" by (simp add: K_def)
    with h obtain d' where "st_codebook (kmeans_iteration rs tp cb d) ! i = reseed_draw rs tp d'"
      using iteration_entry [where i = i and cb = cb and tp = tp and rs = rs and d = d] by auto
    then show "st_codebook (kmeans_iteration rs tp cb d) ! i \<in> set tp"
      using h reseed_draw_in_training by simp
  qed
  show ?thesis using a b c d e by blast
qed

lemma assign_sample:
  "assign_all [(0, 0, 0), (0, 0, 0), (9, 9, 9)] [(0, 0, 0), (0, 0, 0), (9, 9, 9)] = [0, 0, 2]"
  by (simp add: assign_all_def nearest_index_def Let_def)

theorem codebook_size_witness:
  "length (generate_codebook rs_high [(0, 0, 0), (0, 0, 0), (9, 9, 9)]) = 3
   \<and> st_codebook (kmeans_iteration rs_high [(0, 0, 0), (0, 0, 0), (9, 9, 9)]
        [(0, 0, 0), (0, 0, 0), (9, 9, 9)] 0) ! 1 \<in> {(0, 0, 0), (9, 9, 9)}"
proof -
  let ?tp = "[(0, 0, 0), (0, 0, 0), (9, 9, 9)] :: color list"
  have ok: "random_source_ok rs_high"
    unfolding rs_high_def by (rule random_ok_constant) simp_all
  have empty: "cluster_members ?tp (assign_all ?tp ?tp) 1 = []"
    by (simp add: assign_sample cluster_members_def)
  have tr: "training_pixels rs_high ?tp = ?tp"
    by (simp add: training_pixels_def PIXEL_SAMPLE_SIZE_def)
  from codebook_size [where tp = ?tp and rs = rs_high and pixels = ?tp]
  have "length (generate_codebook rs_high ?tp) = min 64 (length (training_pixels rs_high ?tp))"
    and "random_source_ok rs_high \<and> ?tp \<noteq> [] \<and> 1 < length ?tp \<and> length ?tp \<le> 64
         \<and> cluster_members ?tp (assign_all ?tp ?tp) 1 = []
         \<longrightarrow> st_codebook (kmeans_iteration rs_high ?tp ?tp 0) ! 1 \<in> set ?tp"
    by blast+
  then show ?thesis using ok empty tr by simp
qed

text \<open>
  A codebook of exactly 64 entries for every input does not hold: the image of a single
  opaque pixel has a codebook of one entry.
\<close>

theorem codebook_size_counterexample:
  "length (generate_codebook rs_low (visible_pixels [sample_pixel 5 5 5 255])) \<noteq> 64"
proof -
  have "visible_pixels [sample_pixel 5 5 5 255] = [(5, 5, 5)]"
    by (simp add: visible_pixels_def visible_def rgb_of_def sample_pixel_def)
  then have "length (generate_codebook rs_low (visible_pixels [sample_pixel 5 5 5 255])) = 1"
    by (simp add: generate_codebook_length training_pixels_def PIXEL_SAMPLE_SIZE_def K_def)
  then show ?thesis by simp
qed

subsection \<open>Assignment and update\<close>

lemma centroid_color_sum:
  "centroid (color_sum M) n =
     (math_round (of_int (sum_list (map fst M)) / of_nat n),
      math_round (of_int (sum_list (map (fst \<circ> snd) M)) / of_nat n),
      math_round (of_int (sum_list (map (snd \<circ> snd) M)) / of_nat n))"
  by (simp add: color_sum_def)

lemma assign_all_first_min:
  "cb \<noteq> [] \<Longrightarrow> n < length tp \<Longrightarrow> is_first_minimum (tp ! n) cb (assign_all tp cb ! n)"
  by (simp add: assign_all_def nearest_index_first_min)

text \<open>
  C6. In an iteration on a codebook that is not empty and has at most \<open>K\<close> entries (as
  every codebook of the loop is), each training pixel is assigned to the lowest index among
  the entries at minimal squared distance from it, and each entry whose cluster \<open>M\<close> is not
  empty becomes, component by component, the sum over \<open>M\<close> divided by the size of \<open>M\<close> and
  rounded, where rounding gives an integer within one half of its argument.
\<close>

theorem assignment_and_update:
  assumes "cb \<noteq> []" "length cb \<le> K"
  shows "length (assign_all tp cb) = length tp
    \<and> (\<forall>n < length tp. is_first_minimum (tp ! n) cb (assign_all tp cb ! n))
    \<and> (\<forall>i < length cb. \<forall>M. M = cluster_members tp (assign_all tp cb) i \<and> M \<noteq> [] \<longrightarrow>
          st_codebook (kmeans_iteration rs tp cb d) ! i =
            (math_round (of_int (sum_list (map fst M)) / of_nat (length M)),
             math_round (of_int (sum_list (map (fst \<circ> snd) M)) / of_nat (length M)),
             math_round (of_int (sum_list (map (snd \<circ> snd) M)) / of_nat (length M))))
    \<and> (\<forall>x. x - 1 / 2 < of_int (math_round x) \<and> of_int (math_round x) \<le> x + 1 / 2)"
proof -
  have a: "length (assign_all tp cb) = length tp"
    by (simp add: assign_all_def)
  have b: "\<forall>n < length tp. is_first_minimum (tp ! n) cb (assign_all tp cb ! n)"
    using assms(1) by (simp add: assign_all_first_min)
  have c: "\<forall>i < length cb. \<forall>M. M = cluster_members tp (assign_all tp cb) i \<and> M \<noteq> [] \<longrightarrow>
          st_codebook (kmeans_iteration rs tp cb d) ! i =
            (math_round (of_int (sum_list (map fst M)) / of_nat (length M)),
             math_round (of_int (sum_list (map (fst \<circ> snd) M)) / of_nat (length M)),
             math_round (of_int (sum_list (map (snd \<circ> snd) M)) / of_nat (length M)))"
  proof (intro allI impI)
    fix i M
    assume i: "i < length cb" and M: "M = cluster_members tp (assign_all tp cb) i \<and> M \<noteq> []"
    from iteration_entry [where i = i and cb = cb and tp = tp and rs = rs and d = d] i assms(2) M
    have "st_codebook (kmeans_iteration rs tp cb d) ! i = centroid (color_sum M) (length M)"
      by auto
    then show "st_codebook (kmeans_iteration rs tp cb d) ! i =
            (math_round (of_int (sum_list (map fst M)) / of_nat (length M)),
             math_round (of_int (sum_list (map (fst \<circ> snd) M)) / of_nat (length M)),
             math_round (of_int (sum_list (map (snd \<circ> snd) M)) / of_nat (length M)))"
      by (simp only: centroid_color_sum)
  qed
  show ?thesis using a b c math_round_nearest by blast
qed

theorem assignment_and_update_witness:
  "assign_all [(1, 0, 0), (2, 0, 0), (9, 9, 9)] [(0, 0, 0), (0, 0, 0), (9, 9, 9)] ! 1 = 0
   \<and> st_codebook (kmeans_iteration rs_low [(1, 0, 0), (2, 0, 0), (9, 9, 9)]
        [(0, 0, 0), (0, 0, 0), (9, 9, 9)] 0) ! 0 = (2, 0, 0)"
proof -
  let ?tp = "[(1, 0, 0), (2, 0, 0), (9, 9, 9)] :: color list"
  let ?cb = "[(0, 0, 0), (0, 0, 0), (9, 9, 9)] :: color list"
  have h: "?cb \<noteq> []" "length ?cb \<le> K"
    by (simp_all add: K_def)
  note T = assignment_and_update [OF h, where tp = ?tp and rs = rs_low and d = 0]
  have "is_first_minimum (2, 0, 0) ?cb (assign_all ?tp ?cb ! 1)"
    using T [THEN conjunct2, THEN conjunct1, rule_format, of 1] by simp
  moreover have "is_first_minimum (2, 0, 0) ?cb 0"
    by (auto simp add: is_first_minimum_def less_Suc_eq)
  ultimately have first: "assign_all ?tp ?cb ! 1 = 0"
    by (rule first_min_unique)
  have as: "assign_all ?tp ?cb = [0, 0, 2]"
    by (simp add: assign_all_def nearest_index_def Let_def)
  have M: "cluster_members ?tp (assign_all ?tp ?cb) 0 = [(1, 0, 0), (2, 0, 0)]"
    by (simp add: as cluster_members_def)
  have "st_codebook (kmeans_iteration rs_low ?tp ?cb 0) ! 0 =
       (math_round (of_int 3 / of_nat 2), math_round (of_int 0 / of_nat 2),
        math_round (of_int 0 / of_nat 2))"
    using T [THEN conjunct2, THEN conjunct2, THEN conjunct1, rule_format, of 0 "[(1, 0, 0), (2, 0, 0)]"] M
    by simp
  moreover have "math_round (of_int 3 / of_nat 2) = 2"
    using math_round_of_int_div [of 2 3] by simp
  moreover have "math_round 0 = 0"
    using math_round_of_int [of 0] by simp
  ultimately show ?thesis using first by simp
qed

subsection \<open>When the loop stops\<close>

lemma iterations_bounds:
  "iter \<le> iterations (kmeans_loop rs tp iter cb d)
   \<and> iterations (kmeans_loop rs tp iter cb d) \<le> max iter MAX_ITERATIONS"
proof (induction rs tp iter cb d rule: kmeans_loop.induct)
  case (1 rs tp iter cb d)
  show ?case
  proof (cases "iter < MAX_ITERATIONS")
    case False
    then show ?thesis by (simp add: kmeans_loop.simps)
  next
    case True
    let ?s = "kmeans_iteration rs tp cb d"
    show ?thesis
    proof (cases "st_hasChanged ?s")
      case False
      then show ?thesis using True by (subst (1 2) kmeans_loop.simps) (simp add: Let_def)
    next
      case changed: True
      have "Suc iter \<le> iterations (kmeans_loop rs tp (Suc iter) (st_codebook ?s) (st_draws ?s))
        \<and> iterations (kmeans_loop rs tp (Suc iter) (st_codebook ?s) (st_draws ?s))
            \<le> max (Suc iter) MAX_ITERATIONS"
        using True changed by (intro "1.IH") simp_all
      then show ?thesis using True changed by (subst (1 2) kmeans_loop.simps) (simp add: Let_def)
    qed
  qed
qed

lemma kmeans_loop_last: "kmeans_loop rs tp MAX_ITERATIONS cb d =
   \<lparr>final_codebook = cb, iterations = MAX_ITERATIONS, final_draws = d\<rparr>"
  by (simp add: kmeans_loop.simps)

lemma iteration_entry_nonempty:
  assumes "i < length cb" "length cb \<le> K" "cluster_members tp (assign_all tp cb) i \<noteq> []"
  shows "st_codebook (kmeans_iteration rs tp cb d) ! i =
        centroid (color_sum (cluster_members tp (assign_all tp cb) i))
          (length (cluster_members tp (assign_all tp cb) i))"
  using iteration_entry [OF assms(1, 2), where tp = tp and rs = rs and d = d] assms(3) by simp

lemma iteration_changed_entry:
  assumes "length cb \<le> K"
  shows "st_hasChanged (kmeans_iteration rs tp cb d) \<longleftrightarrow>
     (\<exists>i < length cb. cluster_members tp (assign_all tp cb) i \<noteq> []
        \<and> moved (st_codebook (kmeans_iteration rs tp cb d) ! i) (cb ! i))"
  unfolding iteration_changed [OF assms]
  using iteration_entry_nonempty [OF _ assms, where tp = tp and rs = rs and d = d] by auto

text \<open>
  C5 (as amended). The loop, entered at an iteration below the cap with a codebook of at most
  \<open>K\<close> entries, stops right after that iteration exactly when the iteration is the last one
  allowed or no entry whose cluster is not empty moved by more than the threshold; entries
  re-initialised for an empty cluster do not count. When it stops there, the codebook of
  that iteration is the result; otherwise it goes on, and never beyond the cap.
\<close>

theorem loop_exit_rule:
  assumes "iter < MAX_ITERATIONS" "length cb \<le> K"
  shows "(iterations (kmeans_loop rs tp iter cb d) = Suc iter \<longleftrightarrow>
            Suc iter = MAX_ITERATIONS
            \<or> \<not> (\<exists>i < length cb. cluster_members tp (assign_all tp cb) i \<noteq> []
                    \<and> moved (st_codebook (kmeans_iteration rs tp cb d) ! i) (cb ! i)))
    \<and> (iterations (kmeans_loop rs tp iter cb d) = Suc iter \<longrightarrow>
          final_codebook (kmeans_loop rs tp iter cb d) = st_codebook (kmeans_iteration rs tp cb d))
    \<and> Suc iter \<le> iterations (kmeans_loop rs tp iter cb d)
    \<and> iterations (kmeans_loop rs tp iter cb d) \<le> MAX_ITERATIONS"
proof -
  let ?s = "kmeans_iteration rs tp cb d"
  let ?next = "kmeans_loop rs tp (Suc iter) (st_codebook ?s) (st_draws ?s)"
  note ch = iteration_changed_entry [OF assms(2), where tp = tp and rs = rs and d = d]
  show ?thesis
  proof (cases "st_hasChanged ?s")
    case False
    then have "kmeans_loop rs tp iter cb d =
        \<lparr>final_codebook = st_codebook ?s, iterations = Suc iter, final_draws = st_draws ?s\<rparr>"
      using assms(1) by (subst kmeans_loop.simps) (simp add: Let_def)
    then show ?thesis using False ch assms(1) by simp
  next
    case True
    then have eq: "kmeans_loop rs tp iter cb d = ?next"
      using assms(1) by (subst kmeans_loop.simps) (simp add: Let_def)
    show ?thesis
    proof (cases "Suc iter = MAX_ITERATIONS")
      case last: True
      have "?next = \<lparr>final_codebook = st_codebook ?s, iterations = Suc iter, final_draws = st_draws ?s\<rparr>"
        unfolding last by (rule kmeans_loop_last)
      then show ?thesis using eq last by simp
    next
      case False
      then have lt: "Suc iter < MAX_ITERATIONS" using assms(1) by simp
      let ?t = "kmeans_iteration rs tp (st_codebook ?s) (st_draws ?s)"
      have "Suc (Suc iter) \<le> iterations ?next \<and> iterations ?next \<le> MAX_ITERATIONS"
      proof (cases "st_hasChanged ?t")
        case False
        then have "iterations ?next = Suc (Suc iter)"
          using lt by (subst kmeans_loop.simps) (simp add: Let_def)
        then show ?thesis using lt by simp
      next
        case True
        then have "iterations ?next =
           iterations (kmeans_loop rs tp (Suc (Suc iter)) (st_codebook ?t) (st_draws ?t))"
          using lt by (subst kmeans_loop.simps) (simp add: Let_def)
        then show ?thesis
          using iterations_bounds [of "Suc (Suc iter)" rs tp "st_codebook ?t" "st_draws ?t"] lt
          by simp
      qed
      then show ?thesis using eq True ch False by simp
    qed
  qed
qed

theorem loop_exit_rule_witness:
  "1 < iterations (kmeans_loop rs_low [(1, 0, 0), (2, 0, 0), (9, 9, 9)] 0
         [(0, 0, 0), (0, 0, 0), (9, 9, 9)] 0)"
proof -
  let ?tp = "[(1, 0, 0), (2, 0, 0), (9, 9, 9)] :: color list"
  let ?cb = "[(0, 0, 0), (0, 0, 0), (9, 9, 9)] :: color list"
  have h: "0 < MAX_ITERATIONS" "length ?cb \<le> K"
    by (simp_all add: K_def MAX_ITERATIONS_def)
  note T = loop_exit_rule [OF h, where tp = ?tp and rs = rs_low and d = 0]
  have as: "assign_all ?tp ?cb = [0, 0, 2]"
    by (simp add: assign_all_def nearest_index_def Let_def)
  have M: "cluster_members ?tp (assign_all ?tp ?cb) 0 \<noteq> []"
    by (simp add: as cluster_members_def)
  have mv: "moved (st_codebook (kmeans_iteration rs_low ?tp ?cb 0) ! 0) (?cb ! 0)"
    by code_simp
  have "\<exists>i < length ?cb. cluster_members ?tp (assign_all ?tp ?cb) i \<noteq> []
          \<and> moved (st_codebook (kmeans_iteration rs_low ?tp ?cb 0) ! i) (?cb ! i)"
    using M mv by (intro exI [of _ 0]) simp
  then have "iterations (kmeans_loop rs_low ?tp 0 ?cb 0) \<noteq> Suc 0"
    using T [THEN conjunct1] by (simp add: MAX_ITERATIONS_def)
  moreover have "Suc 0 \<le> iterations (kmeans_loop rs_low ?tp 0 ?cb 0)"
    using T [THEN conjunct2, THEN conjunct2, THEN conjunct1] .
  ultimately show ?thesis by simp
qed

text \<open>
  Counting the re-initialised entries, the rule does not hold: here the loop stops after
  its first iteration although the entry 1, re-initialised for its empty cluster, moved from
  black to \<open>(9, 9, 9)\<close>.
\<close>

theorem loop_exit_counterexample:
  "iterations (kmeans_loop rs_high [(0, 0, 0), (0, 0, 0), (9, 9, 9)] 0
       [(0, 0, 0), (0, 0, 0), (9, 9, 9)] 0) = 1
   \<and> 1 < MAX_ITERATIONS
   \<and> moved (st_codebook (kmeans_iteration rs_high [(0, 0, 0), (0, 0, 0), (9, 9, 9)]
               [(0, 0, 0), (0, 0, 0), (9, 9, 9)] 0) ! 1)
        ([(0, 0, 0), (0, 0, 0), (9, 9, 9)] ! 1)"
  by code_simp

subsection \<open>Colour keys\<close>

text \<open>The key of the cache determines the three bytes it was built from.\<close>

lemma digit_char_inj:
  assumes "d < 10" "e < 10" "digit_char d = digit_char e"
  shows "d = e"
proof -
  have "of_char (digit_char d) = (of_char (digit_char e) :: nat)"
    using assms(3) by simp
  then have "(48 + d) mod 256 = (48 + e) mod 256"
    by (simp add: digit_char_def)
  then show ?thesis using assms(1, 2) by simp
qed

lemma digit_char_not_comma:
  assumes "d < 10"
  shows "digit_char d \<noteq> CHR '',''"
proof
  assume "digit_char d = CHR '',''"
  then have "of_char (digit_char d) = (of_char (CHR '','') :: nat)"
    by simp
  then have "(48 + d) mod 256 = 44"
    by (simp add: digit_char_def)
  then show False using assms by simp
qed

lemma decimal_nonempty: "decimal n \<noteq> []"
  by (subst decimal.simps) simp

lemma comma_notin_decimal: "CHR '','' \<notin> set (decimal n)"
proof (induction n rule: decimal.induct)
  case (1 n)
  show ?case
  proof (cases "n < 10")
    case True
    then show ?thesis
      using digit_char_not_comma [of n] by (subst decimal.simps) auto
  next
    case False
    then show ?thesis
      using "1.IH" digit_char_not_comma [of "n mod 10"] by (subst decimal.simps) auto
  qed
qed

lemma decimal_small: "n < 10 \<Longrightarrow> decimal n = [digit_char n]"
  by (subst decimal.simps) simp

lemma decimal_big:
  "\<not> n < 10 \<Longrightarrow> decimal n = decimal (n div 10) @ [digit_char (n mod 10)]"
  by (subst decimal.simps) simp

lemma decimal_inj: "decimal m = decimal n \<Longrightarrow> m = n"
proof (induction m arbitrary: n rule: decimal.induct)
  case (1 m)
  show ?case
  proof (cases "m < 10")
    case small: True
    show ?thesis
    proof (cases "n < 10")
      case True
      from "1.prems" have "digit_char m = digit_char n"
        by (simp add: decimal_small small True)
      with small True show ?thesis by (rule digit_char_inj)
    next
      case False
      from "1.prems" have "decimal (n div 10) = []"
        by (simp add: decimal_small [OF small] decimal_big [OF False])
      then show ?thesis by (simp add: decimal_nonempty)
    qed
  next
    case big: False
    show ?thesis
    proof (cases "n < 10")
      case True
      from "1.prems" have "decimal (m div 10) = []"
        by (simp add: decimal_small [OF True] decimal_big [OF big])
      then show ?thesis by (simp add: decimal_nonempty)
    next
      case False
      from "1.prems" have pre: "decimal (m div 10) = decimal (n div 10)"
        and last: "digit_char (m mod 10) = digit_char (n mod 10)"
        by (simp_all add: decimal_big [OF big] decimal_big [OF False])
      have q: "m div 10 = n div 10"
        using big pre by (rule "1.IH")
      have "m mod 10 < 10" "n mod 10 < 10" by simp_all
      then have r: "m mod 10 = n mod 10"
        using last by (rule digit_char_inj)
      have "m = 10 * (m div 10) + m mod 10" by simp
      also have "\<dots> = 10 * (n div 10) + n mod 10" by (simp only: q r)
      also have "\<dots> = n" by simp
      finally show ?thesis .
    qed
  qed
qed

lemma split_at_comma:
  assumes "CHR '','' \<notin> set xs" "CHR '','' \<notin> set ys"
    and "xs @ CHR '','' # us = ys @ CHR '','' # vs"
  shows "xs = ys \<and> us = vs"
  using assms
proof (induction xs arbitrary: ys)
  case Nil
  then show ?case by (cases ys) simp_all
next
  case (Cons x xs)
  show ?case
  proof (cases ys)
    case Nil
    with Cons.prems show ?thesis by simp
  next
    case (Cons y ys')
    with Cons.prems have "xs = ys' \<and> us = vs"
      by (intro Cons.IH) simp_all
    with Cons Cons.prems show ?thesis by simp
  qed
qed

lemma color_key_inj:
  assumes "color_key r g b = color_key r' g' b'"
  shows "r = r' \<and> g = g' \<and> b = b'"
proof -
  from assms have eq: "decimal (unat r) @ CHR '','' # (decimal (unat g) @ CHR '','' # decimal (unat b))
     = decimal (unat r') @ CHR '','' # (decimal (unat g') @ CHR '','' # decimal (unat b'))"
    by (simp add: color_key_def)
  have first: "decimal (unat r) = decimal (unat r')
     \<and> decimal (unat g) @ CHR '','' # decimal (unat b)
          = decimal (unat g') @ CHR '','' # decimal (unat b')"
    using comma_notin_decimal comma_notin_decimal eq by (rule split_at_comma)
  have second: "decimal (unat g) = decimal (unat g') \<and> decimal (unat b) = decimal (unat b')"
    using comma_notin_decimal comma_notin_decimal first [THEN conjunct2] by (rule split_at_comma)
  have "unat r = unat r'" using first [THEN conjunct1] by (rule decimal_inj)
  moreover have "unat g = unat g'" using second [THEN conjunct1] by (rule decimal_inj)
  moreover have "unat b = unat b'" using second [THEN conjunct2] by (rule decimal_inj)
  ultimately show ?thesis by (simp only: word_unat_eq_iff)
qed

subsection \<open>The cache of the reconstruction\<close>

lemma cache_ok_empty: "cache_ok cb Map.empty"
  by (simp add: cache_ok_def)

lemma rgb_of_key:
  assumes "color_key (red px) (green px) (blue px) = color_key (red qx) (green qx) (blue qx)"
  shows "rgb_of px = rgb_of qx"
  using color_key_inj [OF assms] by (simp add: rgb_of_def)

lemma cache_ok_update:
  assumes "cache_ok cb m"
  shows "cache_ok cb (m(color_key (red px) (green px) (blue px) \<mapsto> cb ! nearest_index (rgb_of px) cb))"
  unfolding cache_ok_def
proof (intro allI impI)
  fix qx :: rgba and c :: color
  assume h: "(m(color_key (red px) (green px) (blue px) \<mapsto> cb ! nearest_index (rgb_of px) cb))
      (color_key (red qx) (green qx) (blue qx)) = Some c"
  show "c = cb ! nearest_index (rgb_of qx) cb"
  proof (cases "color_key (red qx) (green qx) (blue qx) = color_key (red px) (green px) (blue px)")
    case True
    then have "rgb_of qx = rgb_of px" by (rule rgb_of_key)
    with h True show ?thesis by simp
  next
    case False
    with h have "m (color_key (red qx) (green qx) (blue qx)) = Some c" by simp
    with assms show ?thesis unfolding cache_ok_def by blast
  qed
qed

lemma reconstruct_loop_naive:
  "cache_ok cb m \<Longrightarrow>
   reconstruct_loop cb pxs m = map (\<lambda>px. output_pixel (cb ! nearest_index (rgb_of px) cb) px) pxs"
proof (induction pxs arbitrary: m)
  case Nil
  then show ?case by simp
next
  case (Cons px pxs)
  let ?key = "color_key (red px) (green px) (blue px)"
  show ?case
  proof (cases "m ?key")
    case None
    have "cache_ok cb (m(?key \<mapsto> cb ! nearest_index (rgb_of px) cb))"
      using Cons.prems by (rule cache_ok_update)
    then have "reconstruct_loop cb pxs (m(?key \<mapsto> cb ! nearest_index (rgb_of px) cb))
       = map (\<lambda>px. output_pixel (cb ! nearest_index (rgb_of px) cb) px) pxs"
      by (rule Cons.IH)
    then show ?thesis using None by (simp add: Let_def)
  next
    case (Some c)
    then have "c = cb ! nearest_index (rgb_of px) cb"
      using Cons.prems unfolding cache_ok_def by blast
    then show ?thesis using Some Cons.IH [OF Cons.prems] by (simp add: Let_def)
  qed
qed

text \<open>
  C10. The reconstruction with its cache returns the image that the reconstruction without
  a cache returns, for every codebook and image; and on a codebook that is not empty the
  search made for a pixel finds the lowest index among the entries nearest to its colour.
\<close>

theorem memoized_equals_naive:
  "reconstruct cb imageData = naive_reconstruct cb imageData
   \<and> (cb \<noteq> [] \<longrightarrow>
        (\<forall>px \<in> set (data imageData).
           is_first_minimum (rgb_of px) cb (nearest_index (rgb_of px) cb)))"
  by (simp add: reconstruct_def naive_reconstruct_def reconstruct_loop_naive cache_ok_empty
      nearest_index_first_min)

theorem memoized_equals_naive_witness:
  "data (reconstruct [(0, 0, 0), (9, 9, 9)]
     \<lparr>width = 2, height = 1, data = [sample_pixel 8 8 8 255, sample_pixel 8 8 8 7]\<rparr>)
   = [sample_pixel 9 9 9 255, sample_pixel 9 9 9 7]"
proof -
  let ?cb = "[(0, 0, 0), (9, 9, 9)] :: color list"
  let ?im = "\<lparr>width = 2, height = 1, data = [sample_pixel 8 8 8 255, sample_pixel 8 8 8 7]\<rparr>"
  note T = memoized_equals_naive [of ?cb ?im]
  have rgb: "rgb_of (sample_pixel 8 8 8 255) = (8, 8, 8)" "rgb_of (sample_pixel 8 8 8 7) = (8, 8, 8)"
    by (simp_all add: rgb_of_def sample_pixel_def)
  have "is_first_minimum (8, 8, 8) ?cb (nearest_index (8, 8, 8) ?cb)"
    using T [THEN conjunct2] rgb by simp
  moreover have "is_first_minimum (8, 8, 8) ?cb 1"
    by (auto simp add: is_first_minimum_def less_Suc_eq)
  ultimately have n: "nearest_index (8, 8, 8) ?cb = 1"
    by (rule first_min_unique)
  have "data (reconstruct ?cb ?im) = data (naive_reconstruct ?cb ?im)"
    using T [THEN conjunct1] by simp
  then show ?thesis
    using n rgb
    by (simp add: naive_reconstruct_def output_pixel_def sample_pixel_def to_uint8_clamped_def)
qed

subsection \<open>Colours made of bytes\<close>

lemma uint_byte: "0 \<le> uint (w :: byte) \<and> uint w \<le> 255"
proof -
  have "uint w < 2 ^ LENGTH(8)" by (rule uint_lt2p)
  then show ?thesis by simp
qed

lemma byte_color_rgb_of: "byte_color (rgb_of px)"
  using uint_byte by (simp add: byte_color_def rgb_of_def)

lemma byte_color_visible: "c \<in> set (visible_pixels imgData) \<Longrightarrow> byte_color c"
  by (auto simp add: visible_pixels_def byte_color_rgb_of)

lemma to_uint8_clamped_byte: "0 \<le> x \<Longrightarrow> x \<le> 255 \<Longrightarrow> uint (to_uint8_clamped x) = x"
  by (simp add: to_uint8_clamped_def uint_word_of_int)

lemma rgb_of_output_pixel: "byte_color c \<Longrightarrow> rgb_of (output_pixel c px) = c"
  by (cases c) (simp add: byte_color_def output_pixel_def rgb_of_def to_uint8_clamped_byte)

lemma color_sum_bounds:
  assumes "\<forall>c \<in> set M. byte_color c"
  shows "case color_sum M of (r, g, b) \<Rightarrow>
     0 \<le> r \<and> r \<le> 255 * int (length M) \<and> 0 \<le> g \<and> g \<le> 255 * int (length M)
     \<and> 0 \<le> b \<and> b \<le> 255 * int (length M)"
  using assms
proof (induction M)
  case Nil
  then show ?case by simp
next
  case (Cons p M)
  obtain r g b where p: "p = (r, g, b)" by (cases p)
  obtain sr sg sb where s: "color_sum M = (sr, sg, sb)" by (cases "color_sum M")
  have "byte_color p" using Cons.prems by simp
  then have pb: "0 \<le> r" "r \<le> 255" "0 \<le> g" "g \<le> 255" "0 \<le> b" "b \<le> 255"
    by (simp_all add: p byte_color_def)
  have "case color_sum M of (r, g, b) \<Rightarrow>
     0 \<le> r \<and> r \<le> 255 * int (length M) \<and> 0 \<le> g \<and> g \<le> 255 * int (length M)
     \<and> 0 \<le> b \<and> b \<le> 255 * int (length M)"
    using Cons.prems by (intro Cons.IH) simp
  then have sb: "0 \<le> sr" "sr \<le> 255 * int (length M)" "0 \<le> sg" "sg \<le> 255 * int (length M)"
    "0 \<le> sb" "sb \<le> 255 * int (length M)"
    by (simp_all add: s)
  show ?case
    using pb sb by (simp add: color_sum_Cons p s)
qed

lemma mean_byte:
  assumes "0 \<le> s" "s \<le> 255 * int n" "0 < n"
  shows "0 \<le> math_round (of_int s / of_nat n) \<and> math_round (of_int s / of_nat n) \<le> 255"
proof (rule math_round_range)
  show "rat_of_int 0 \<le> of_int s / of_nat n"
    using assms by simp
  have "rat_of_int s \<le> of_int (255 * int n)"
    using assms(2) by (simp only: of_int_le_iff)
  then show "rat_of_int s / of_nat n \<le> of_int 255"
    using assms(3) by (simp add: divide_le_eq)
qed

lemma centroid_byte:
  assumes "M \<noteq> []" "\<forall>c \<in> set M. byte_color c"
  shows "byte_color (centroid (color_sum M) (length M))"
proof -
  obtain sr sg sb where s: "color_sum M = (sr, sg, sb)" by (cases "color_sum M")
  have n: "0 < length M" using assms(1) by simp
  from color_sum_bounds [OF assms(2)]
  have b: "0 \<le> sr" "sr \<le> 255 * int (length M)" "0 \<le> sg" "sg \<le> 255 * int (length M)"
    "0 \<le> sb" "sb \<le> 255 * int (length M)"
    by (simp_all add: s)
  show ?thesis
    using mean_byte [OF b(1, 2) n] mean_byte [OF b(3, 4) n] mean_byte [OF b(5, 6) n]
    by (simp add: s byte_color_def)
qed

subsection \<open>The colours of the reconstructed image\<close>

lemma training_pixels_subset:
  assumes "random_source_ok rs"
  shows "set (training_pixels rs pixels) \<subseteq> set pixels"
proof -
  have "mset (shuffle rs pixels) = mset pixels"
    using assms by (simp add: random_source_ok_def)
  then have "set (shuffle rs pixels) = set pixels"
    by (rule mset_eq_setD)
  then show ?thesis
    using set_take_subset [of PIXEL_SAMPLE_SIZE "shuffle rs pixels"]
    by (auto simp add: training_pixels_def)
qed

lemma training_pixels_nonempty:
  assumes "random_source_ok rs" "pixels \<noteq> []"
  shows "training_pixels rs pixels \<noteq> []"
proof -
  have "mset (shuffle rs pixels) = mset pixels"
    using assms(1) by (simp add: random_source_ok_def)
  then have "length (shuffle rs pixels) = length pixels"
    by (rule mset_eq_length)
  then have "shuffle rs pixels \<noteq> []" using assms(2) by auto
  then show ?thesis
    using assms(2) by (simp add: training_pixels_def PIXEL_SAMPLE_SIZE_def)
qed

lemma iteration_bytes:
  assumes ok: "random_source_ok rs" and tp: "tp \<noteq> []" "\<forall>c \<in> set tp. byte_color c"
    and cb: "length cb \<le> K"
  shows "\<forall>c \<in> set (st_codebook (kmeans_iteration rs tp cb d)). byte_color c"
proof
  fix c
  assume "c \<in> set (st_codebook (kmeans_iteration rs tp cb d))"
  then obtain i where i: "i < length cb" and c: "c = st_codebook (kmeans_iteration rs tp cb d) ! i"
    by (auto simp add: in_set_conv_nth iteration_length)
  let ?M = "cluster_members tp (assign_all tp cb) i"
  from iteration_entry [OF i cb, where tp = tp and rs = rs and d = d]
  obtain d' where e: "c = (if ?M \<noteq> [] then centroid (color_sum ?M) (length ?M) else reseed_draw rs tp d')"
    using c by auto
  show "byte_color c"
  proof (cases "?M = []")
    case True
    then have "c \<in> set tp" using e reseed_draw_in_training [OF ok tp(1)] by simp
    then show ?thesis using tp(2) by simp
  next
    case False
    have "\<forall>m \<in> set ?M. byte_color m"
      using set_cluster_members [of tp "assign_all tp cb" i] tp(2) by auto
    with False have "byte_color (centroid (color_sum ?M) (length ?M))"
      by (rule centroid_byte)
    then show ?thesis using e False by simp
  qed
qed

lemma generate_codebook_bytes:
  assumes ok: "random_source_ok rs" and px: "pixels \<noteq> []" "\<forall>c \<in> set pixels. byte_color c"
  shows "generate_codebook rs pixels \<noteq> []
    \<and> (\<forall>c \<in> set (generate_codebook rs pixels). byte_color c)"
proof -
  let ?tp = "training_pixels rs pixels"
  have tp: "?tp \<noteq> []" using ok px(1) by (rule training_pixels_nonempty)
  have tpb: "\<forall>c \<in> set ?tp. byte_color c"
    using training_pixels_subset [OF ok, of pixels] px(2) by auto
  have "length (generate_codebook rs pixels) = min K (length ?tp)"
    by (rule generate_codebook_length)
  moreover have "0 < min K (length ?tp)"
    using tp by (simp add: K_def)
  ultimately have "0 < length (generate_codebook rs pixels)"
    by simp
  then have ne: "generate_codebook rs pixels \<noteq> []"
    by simp
  let ?P = "\<lambda>cb. length cb \<le> K \<and> (\<forall>c \<in> set cb. byte_color c)"
  have "?P (final_codebook (kmeans_loop rs ?tp 0 (initial_codebook ?tp) 0))"
  proof (rule kmeans_loop_invariant)
    show "?P (initial_codebook ?tp)"
      using tpb set_take_subset [of K ?tp] by (auto simp add: initial_codebook_def)
  next
    fix c d'
    assume "?P c"
    then have len: "length c \<le> K" by simp
    have "\<forall>e \<in> set (st_codebook (kmeans_iteration rs ?tp c d')). byte_color e"
      using ok tp tpb len by (rule iteration_bytes)
    then show "?P (st_codebook (kmeans_iteration rs ?tp c d'))"
      using len by (simp add: iteration_length)
  qed
  then show ?thesis using ne by (simp add: generate_codebook_def Let_def)
qed

text \<open>
  C4. With draws in \<open>[0, 1)\<close> and at least one visible pixel, the red, green and blue bytes
  of every pixel of the reconstructed image are the three channels of one entry of the final
  codebook.
\<close>

theorem quantization_membership:
  assumes "random_source_ok rs" "visible_pixels (data imageData) \<noteq> []"
  shows "\<forall>px \<in> set (data (quantized_image rs imageData)).
     rgb_of px \<in> set (generate_codebook rs (visible_pixels (data imageData)))"
proof
  let ?cb = "generate_codebook rs (visible_pixels (data imageData))"
  fix px
  assume "px \<in> set (data (quantized_image rs imageData))"
  then obtain qx where px: "px = output_pixel (?cb ! nearest_index (rgb_of qx) ?cb) qx"
    by (auto simp add: quantized_image_def reconstruct_def reconstruct_loop_naive cache_ok_empty)
  have cb: "?cb \<noteq> []" "\<forall>c \<in> set ?cb. byte_color c"
    using generate_codebook_bytes [OF assms(1, 2)] byte_color_visible by blast+
  have "nearest_index (rgb_of qx) ?cb < length ?cb"
    using cb(1) by (rule nearest_index_less)
  then have mem: "?cb ! nearest_index (rgb_of qx) ?cb \<in> set ?cb"
    by (rule nth_mem)
  then have "byte_color (?cb ! nearest_index (rgb_of qx) ?cb)"
    using cb(2) by simp
  then have "rgb_of px = ?cb ! nearest_index (rgb_of qx) ?cb"
    unfolding px by (rule rgb_of_output_pixel)
  then show "rgb_of px \<in> set ?cb" using mem by simp
qed

lemma length_quantized: "length (data (quantized_image rs imageData)) = length (data imageData)"
  by (simp add: quantized_image_def reconstruct_def reconstruct_loop_naive cache_ok_empty)

theorem quantization_membership_witness:
  "rgb_of (data (quantized_image rs_high sample_image) ! 4)
     \<in> set (generate_codebook rs_high (visible_pixels (data sample_image)))"
proof -
  have ok: "random_source_ok rs_high"
    unfolding rs_high_def by (rule random_ok_constant) simp_all
  have "4 < length (data (quantized_image rs_high sample_image))"
    by (simp add: length_quantized sample_image_def)
  then have "data (quantized_image rs_high sample_image) ! 4
      \<in> set (data (quantized_image rs_high sample_image))"
    by (rule nth_mem)
  with quantization_membership [OF ok sample_image_visible] show ?thesis by blast
qed

subsection \<open>What the outcome depends on\<close>

lemma update_entry_draws:
  "random rs = random rs' \<Longrightarrow> update_entry rs = update_entry rs'"
  by (simp add: update_entry_def fun_eq_iff)

lemma kmeans_iteration_draws:
  "random rs = random rs' \<Longrightarrow> kmeans_iteration rs tp cb d = kmeans_iteration rs' tp cb d"
  by (simp add: kmeans_iteration_def update_entry_draws [of rs rs'])

lemma kmeans_loop_draws:
  "random rs = random rs' \<Longrightarrow> kmeans_loop rs tp iter cb d = kmeans_loop rs' tp iter cb d"
proof (induction rs tp iter cb d rule: kmeans_loop.induct)
  case (1 rs tp iter cb d)
  note it = kmeans_iteration_draws [OF "1.prems", of tp cb d]
  show ?case
  proof (cases "iter < MAX_ITERATIONS \<and> st_hasChanged (kmeans_iteration rs tp cb d)")
    case True
    then have "kmeans_loop rs tp (Suc iter) (st_codebook (kmeans_iteration rs tp cb d))
          (st_draws (kmeans_iteration rs tp cb d))
       = kmeans_loop rs' tp (Suc iter) (st_codebook (kmeans_iteration rs tp cb d))
          (st_draws (kmeans_iteration rs tp cb d))"
      using "1.prems" by (intro "1.IH") simp_all
    then show ?thesis
      using True it
      by (subst kmeans_loop.simps, subst (2) kmeans_loop.simps) (simp add: Let_def)
  next
    case False
    then show ?thesis
      using it
      by (subst kmeans_loop.simps, subst (2) kmeans_loop.simps) (auto simp add: Let_def)
  qed
qed

lemma training_pixels_small:
  "length pixels \<le> PIXEL_SAMPLE_SIZE \<Longrightarrow> training_pixels rs pixels = pixels"
  by (simp add: training_pixels_def)

lemma generate_codebook_draws:
  assumes "length pixels \<le> PIXEL_SAMPLE_SIZE" "random rs = random rs'"
  shows "generate_codebook rs pixels = generate_codebook rs' pixels"
  by (simp add: generate_codebook_def Let_def training_pixels_small [OF assms(1)]
      kmeans_loop_draws [OF assms(2)])

text \<open>
  C9 (as amended). For an image with at most 40000 visible pixels the outcome is a function
  of the pixels, the file, the encoder and the draws made for empty clusters: two random
  sources with the same draws give the same outcome (result or error), whatever their
  shuffles are.
\<close>

theorem deterministic_given_draws:
  assumes "length (visible_pixels (data imageData)) \<le> PIXEL_SAMPLE_SIZE"
    and "random rs = random rs'"
  shows "compressWithVectorQuantization rs png f orig imageData
     = compressWithVectorQuantization rs' png f orig imageData
   \<and> quantized_image rs imageData = quantized_image rs' imageData"
  by (simp add: compressWithVectorQuantization_def quantized_image_def Let_def
      generate_codebook_draws [OF assms])

theorem deterministic_given_draws_witness:
  "compressWithVectorQuantization rs_low (\<lambda>im. map red (data im)) sample_file
      (DataUrl ImageJpeg []) sample_image
   = compressWithVectorQuantization \<lparr>shuffle = rev, random = (\<lambda>k. 0)\<rparr>
      (\<lambda>im. map red (data im)) sample_file (DataUrl ImageJpeg []) sample_image"
proof -
  have small: "length (visible_pixels (data sample_image)) \<le> PIXEL_SAMPLE_SIZE"
    by (simp add: visible_pixels_def sample_image_def PIXEL_SAMPLE_SIZE_def)
  have draws: "random rs_low = random \<lparr>shuffle = rev, random = (\<lambda>k. 0)\<rparr>"
    by (simp add: rs_low_def)
  from deterministic_given_draws [OF small draws] show ?thesis by blast
qed

text \<open>
  Without fixing the draws the outcome is not determined: the sample image has four visible
  pixels, and the two random sources, which differ in their draws only, give different bytes
  for its fifth pixel and different results.
\<close>

theorem deterministic_counterexample:
  "length (visible_pixels (data sample_image)) \<le> 40000
   \<and> data (quantized_image rs_low sample_image)
       = [sample_pixel 0 0 0 255, sample_pixel 0 0 0 255, sample_pixel 100 0 0 255,
          sample_pixel 102 0 0 255, sample_pixel 100 0 0 100]
   \<and> data (quantized_image rs_high sample_image)
       = [sample_pixel 0 0 0 255, sample_pixel 0 0 0 255, sample_pixel 100 0 0 255,
          sample_pixel 102 0 0 255, sample_pixel 102 0 0 100]
   \<and> compressWithVectorQuantization rs_low (\<lambda>im. map red (data im)) sample_file
        (DataUrl ImageJpeg []) sample_image
      \<noteq> compressWithVectorQuantization rs_high (\<lambda>im. map red (data im)) sample_file
        (DataUrl ImageJpeg []) sample_image"
proof -
  have n: "length (visible_pixels (data sample_image)) \<le> 40000"
    by (simp add: visible_pixels_def sample_image_def)
  have lo: "data (quantized_image rs_low sample_image)
       = [sample_pixel 0 0 0 255, sample_pixel 0 0 0 255, sample_pixel 100 0 0 255,
          sample_pixel 102 0 0 255, sample_pixel 100 0 0 100]"
    by code_simp
  have hi: "data (quantized_image rs_high sample_image)
       = [sample_pixel 0 0 0 255, sample_pixel 0 0 0 255, sample_pixel 100 0 0 255,
          sample_pixel 102 0 0 255, sample_pixel 102 0 0 100]"
    by code_simp
  have "compressWithVectorQuantization rs_low (\<lambda>im. map red (data im)) sample_file
        (DataUrl ImageJpeg []) sample_image
      \<noteq> compressWithVectorQuantization rs_high (\<lambda>im. map red (data im)) sample_file
        (DataUrl ImageJpeg []) sample_image"
    using sample_image_visible
    by (simp add: compressWithVectorQuantization_def Let_def lo hi select_result_def
        sample_file_def sample_pixel_def)
  with n lo hi show ?thesis by blast
qed

end
